theory Spec2Isabelle
  imports Main
begin

section \<open>Rank-4 tensors\<close>

text \<open>
  The functions of \<^verbatim>\<open>denoising/functions.py\<close> work on rank-4 tensors indexed
  (N, C, H, W). A tensor is its size together with its elements, kept as nested lists
  in the order of the four axes. The size is stored beside the elements because an
  axis of size 0 hides the sizes of the axes after it.
\<close>

record 'a tensor =
  dimN :: nat
  dimC :: nat
  dimH :: nat
  dimW :: nat
  elems :: "'a list list list list"

definition wf_tensor :: "'a tensor \<Rightarrow> bool" where
  "wf_tensor t \<longleftrightarrow>
     length (elems t) = dimN t \<and>
     list_all (\<lambda>img. length img = dimC t \<and>
       list_all (\<lambda>pl. length pl = dimH t \<and>
         list_all (\<lambda>row. length row = dimW t) pl) img) (elems t)"

definition get :: "'a tensor \<Rightarrow> nat \<Rightarrow> nat \<Rightarrow> nat \<Rightarrow> nat \<Rightarrow> 'a" where
  "get t n c h w = elems t ! n ! c ! h ! w"

definition tab4 ::
  "nat \<Rightarrow> nat \<Rightarrow> nat \<Rightarrow> nat \<Rightarrow> (nat \<Rightarrow> nat \<Rightarrow> nat \<Rightarrow> nat \<Rightarrow> 'a) \<Rightarrow> 'a list list list list" where
  "tab4 N C H W f =
     map (\<lambda>n. map (\<lambda>c. map (\<lambda>h. map (\<lambda>w. f n c h w) [0..<W]) [0..<H]) [0..<C]) [0..<N]"

definition mk_tensor ::
  "nat \<Rightarrow> nat \<Rightarrow> nat \<Rightarrow> nat \<Rightarrow> (nat \<Rightarrow> nat \<Rightarrow> nat \<Rightarrow> nat \<Rightarrow> 'a) \<Rightarrow> 'a tensor" where
  "mk_tensor N C H W f =
     \<lparr>dimN = N, dimC = C, dimH = H, dimW = W, elems = tab4 N C H W f\<rparr>"

text \<open>\<^verbatim>\<open>torch.zeros((N, C, H, W))\<close> and \<^verbatim>\<open>torch.empty(N, C, H, W).fill_(0)\<close>.\<close>

definition zeros :: "nat \<Rightarrow> nat \<Rightarrow> nat \<Rightarrow> nat \<Rightarrow> 'a::zero tensor" where
  "zeros N C H W = mk_tensor N C H W (\<lambda>n c h w. 0)"

subsection \<open>Errors\<close>

text \<open>
  The assertion of \<^verbatim>\<open>forward\<close> raises \<^verbatim>\<open>AssertionError\<close> with its message.
  A \<^verbatim>\<open>view\<close> to a size with another number of elements, and a slice assignment
  whose right-hand side cannot be expanded to the size of the assigned slice, raise
  \<^verbatim>\<open>RuntimeError\<close>.
\<close>

datatype py_error = AssertionError string | RuntimeError

subsection \<open>Slices\<close>

text \<open>
  A slice \<^verbatim>\<open>start:stop:step\<close> along one axis; \<^verbatim>\<open>stop\<close> may be absent. On an
  axis of size \<open>n\<close> the slice selects \<open>start, start + step, \<dots>\<close> below
  \<open>min stop n\<close>.
\<close>

datatype slice = Slice nat "nat option" nat

definition slice_all :: slice where
  "slice_all = Slice 0 None 1"

fun slice_stop :: "slice \<Rightarrow> nat \<Rightarrow> nat" where
  "slice_stop (Slice a None s) n = n"
| "slice_stop (Slice a (Some b) s) n = min b n"

fun slice_len :: "slice \<Rightarrow> nat \<Rightarrow> nat" where
  "slice_len (Slice a b s) n = (slice_stop (Slice a b s) n - a + s - 1) div s"

fun slice_at :: "slice \<Rightarrow> nat \<Rightarrow> nat" where
  "slice_at (Slice a b s) k = a + k * s"

fun on_slice :: "slice \<Rightarrow> nat \<Rightarrow> nat \<Rightarrow> bool" where
  "on_slice (Slice a b s) n i \<longleftrightarrow>
     a \<le> i \<and> i < slice_stop (Slice a b s) n \<and> (i - a) mod s = 0"

fun slice_rel :: "slice \<Rightarrow> nat \<Rightarrow> nat" where
  "slice_rel (Slice a b s) i = (i - a) div s"

text \<open>Reading \<^verbatim>\<open>t[s0, s1, s2, s3]\<close>.\<close>

definition getitem4 :: "'a tensor \<Rightarrow> slice \<Rightarrow> slice \<Rightarrow> slice \<Rightarrow> slice \<Rightarrow> 'a tensor" where
  "getitem4 t s0 s1 s2 s3 =
     mk_tensor (slice_len s0 (dimN t)) (slice_len s1 (dimC t))
               (slice_len s2 (dimH t)) (slice_len s3 (dimW t))
       (\<lambda>n c h w. get t (slice_at s0 n) (slice_at s1 c) (slice_at s2 h) (slice_at s3 w))"

text \<open>
  The assignment \<^verbatim>\<open>dst[s0, s1, s2, s3] = src\<close>. The right-hand side is expanded to the
  size of the assigned slice: along each axis its size is the slice's, or it is 1 and
  its single entry is repeated (also zero times, for an empty slice). Any other size
  raises. The elements of \<open>dst\<close> on the slice are overwritten, the others stay.
\<close>

definition expandable :: "nat \<Rightarrow> nat \<Rightarrow> bool" where
  "expandable from to \<longleftrightarrow> from = to \<or> from = 1"

definition bidx :: "nat \<Rightarrow> nat \<Rightarrow> nat" where
  "bidx d i = (if d = 1 then 0 else i)"

definition setitem4 ::
  "'a tensor \<Rightarrow> slice \<Rightarrow> slice \<Rightarrow> slice \<Rightarrow> slice \<Rightarrow> 'a tensor \<Rightarrow> py_error + 'a tensor" where
  "setitem4 dst s0 s1 s2 s3 src =
     (if expandable (dimN src) (slice_len s0 (dimN dst)) \<and>
         expandable (dimC src) (slice_len s1 (dimC dst)) \<and>
         expandable (dimH src) (slice_len s2 (dimH dst)) \<and>
         expandable (dimW src) (slice_len s3 (dimW dst))
      then Inr (mk_tensor (dimN dst) (dimC dst) (dimH dst) (dimW dst)
        (\<lambda>n c h w.
           if on_slice s0 (dimN dst) n \<and> on_slice s1 (dimC dst) c \<and>
              on_slice s2 (dimH dst) h \<and> on_slice s3 (dimW dst) w
           then get src (bidx (dimN src) (slice_rel s0 n)) (bidx (dimC src) (slice_rel s1 c))
                        (bidx (dimH src) (slice_rel s2 h)) (bidx (dimW src) (slice_rel s3 w))
           else get dst n c h w))
      else Inl RuntimeError)"

text \<open>
  \<^verbatim>\<open>noise_sigma.view(N, 1, 1, 1)\<close> on a vector: the number of elements must be \<open>N\<close>.
\<close>

definition view_N111 :: "'a list \<Rightarrow> nat \<Rightarrow> py_error + 'a tensor" where
  "view_N111 v N =
     (if length v = N then Inr (mk_tensor N 1 1 1 (\<lambda>n c h w. v ! n)) else Inl RuntimeError)"

text \<open>\<^verbatim>\<open>t.repeat(r0, r1, r2, r3)\<close> tiles the tensor along each axis.\<close>

definition repeat4 :: "'a tensor \<Rightarrow> nat \<Rightarrow> nat \<Rightarrow> nat \<Rightarrow> nat \<Rightarrow> 'a tensor" where
  "repeat4 t r0 r1 r2 r3 =
     mk_tensor (r0 * dimN t) (r1 * dimC t) (r2 * dimH t) (r3 * dimW t)
       (\<lambda>n c h w. get t (n mod dimN t) (c mod dimC t) (h mod dimH t) (w mod dimW t))"

text \<open>\<^verbatim>\<open>torch.cat((a, b), 1)\<close>: the other three axes must agree.\<close>

definition cat1 :: "'a tensor \<Rightarrow> 'a tensor \<Rightarrow> py_error + 'a tensor" where
  "cat1 a b =
     (if dimN a = dimN b \<and> dimH a = dimH b \<and> dimW a = dimW b
      then Inr (mk_tensor (dimN a) (dimC a + dimC b) (dimH a) (dimW a)
        (\<lambda>n c h w. if c < dimC a then get a n c h w else get b n (c - dimC a) h w))
      else Inl RuntimeError)"

section \<open>The functions of denoising/functions.py\<close>

definition idxL :: "nat list list" where
  "idxL = [[0, 0], [0, 1], [1, 0], [1, 1]]"

text \<open>
  The loop of \<^verbatim>\<open>concatenate_input_noise_map\<close> and of \<^verbatim>\<open>backward\<close>, over the
  remaining values of \<^verbatim>\<open>idx\<close>:
  \<^verbatim>\<open>out[:, idx:Cout:sca2, :, :] = inp[:, :, idxL[idx][0]::sca, idxL[idx][1]::sca]\<close>.
\<close>

fun populate_down ::
  "'a tensor \<Rightarrow> nat \<Rightarrow> nat \<Rightarrow> nat \<Rightarrow> nat list \<Rightarrow> 'a tensor \<Rightarrow> py_error + 'a tensor" where
  "populate_down inp Cout sca sca2 [] out = Inr out"
| "populate_down inp Cout sca sca2 (idx # rest) out =
     (case setitem4 out slice_all (Slice idx (Some Cout) sca2) slice_all slice_all
             (getitem4 inp slice_all slice_all
                (Slice (idxL ! idx ! 0) None sca) (Slice (idxL ! idx ! 1) None sca)) of
        Inl e \<Rightarrow> Inl e
      | Inr out' \<Rightarrow> populate_down inp Cout sca sca2 rest out')"

definition concatenate_input_noise_map ::
  "'a::zero tensor \<Rightarrow> 'a list \<Rightarrow> py_error + 'a tensor" where
  "concatenate_input_noise_map input noise_sigma =
     (let N = dimN input; C = dimC input; H = dimH input; W = dimW input;
          sca = 2;
          sca2 = sca * sca;
          Cout = sca2 * C;
          Hout = H div sca;
          Wout = W div sca;
          downsampledfeatures = zeros N Cout Hout Wout
      in case view_N111 noise_sigma N of
           Inl e \<Rightarrow> Inl e
         | Inr v \<Rightarrow>
             (let noise_map = repeat4 v 1 C Hout Wout
              in case populate_down input Cout sca sca2 [0..<sca2] downsampledfeatures of
                   Inl e \<Rightarrow> Inl e
                 | Inr downsampledfeatures' \<Rightarrow> cat1 noise_map downsampledfeatures'))"

text \<open>
  The loop of \<^verbatim>\<open>forward\<close>:
  \<^verbatim>\<open>result[:, :, idxL[idx][0]::sca, idxL[idx][1]::sca] = input[:, idx:Cin:sca2, :, :]\<close>.
\<close>

fun populate_up ::
  "'a tensor \<Rightarrow> nat \<Rightarrow> nat \<Rightarrow> nat \<Rightarrow> nat list \<Rightarrow> 'a tensor \<Rightarrow> py_error + 'a tensor" where
  "populate_up inp Cin sca sca2 [] result = Inr result"
| "populate_up inp Cin sca sca2 (idx # rest) result =
     (case setitem4 result slice_all slice_all
             (Slice (idxL ! idx ! 0) None sca) (Slice (idxL ! idx ! 1) None sca)
             (getitem4 inp slice_all (Slice idx (Some Cin) sca2) slice_all slice_all) of
        Inl e \<Rightarrow> Inl e
      | Inr result' \<Rightarrow> populate_up inp Cin sca sca2 rest result')"

definition forward :: "'a::zero tensor \<Rightarrow> py_error + 'a tensor" where
  "forward input =
     (let N = dimN input; Cin = dimC input; Hin = dimH input; Win = dimW input;
          sca = 2;
          sca2 = sca * sca;
          Cout = Cin div sca2;
          Hout = Hin * sca;
          Wout = Win * sca
      in if Cin mod sca2 \<noteq> 0
         then Inl (AssertionError
           ''Invalid input dimensions: number of channels should be divisible by 4'')
         else populate_up input Cin sca sca2 [0..<sca2] (zeros N Cout Hout Wout))"

definition backward :: "'a::zero tensor \<Rightarrow> py_error + 'a tensor" where
  "backward grad_output =
     (let N = dimN grad_output; Cg_out = dimC grad_output;
          Hg_out = dimH grad_output; Wg_out = dimW grad_output;
          sca = 2;
          sca2 = sca * sca;
          Cg_in = sca2 * Cg_out;
          Hg_in = Hg_out div sca;
          Wg_in = Wg_out div sca
      in populate_down grad_output Cg_in sca sca2 [0..<sca2] (zeros N Cg_in Hg_in Wg_in))"

section \<open>Notions of the specification\<close>

text \<open>The size of a tensor as one value, as \<^verbatim>\<open>t.size()\<close> returns it.\<close>

definition size4 :: "'a tensor \<Rightarrow> nat \<times> nat \<times> nat \<times> nat" where
  "size4 t = (dimN t, dimC t, dimH t, dimW t)"


text \<open>
  Modelled from the spec: the inner product of two tensors of one size, the sum over
  all index positions of the products of their elements. The source has no such
  function; the adjoint property of the spec is stated with it.
\<close>

definition inner4 :: "'a::semiring_0 tensor \<Rightarrow> 'a tensor \<Rightarrow> 'a" where
  "inner4 a b =
     (\<Sum>n<dimN a. \<Sum>c<dimC a. \<Sum>h<dimH a. \<Sum>w<dimW a. get a n c h w * get b n c h w)"

text \<open>
  Two batches agree on image \<open>m\<close>: both have an image \<open>m\<close>, of one size, with the same
  elements.
\<close>

definition agree_on :: "'a tensor \<Rightarrow> 'a tensor \<Rightarrow> nat \<Rightarrow> bool" where
  "agree_on a b m \<longleftrightarrow>
     m < dimN a \<and> m < dimN b \<and> dimC a = dimC b \<and> dimH a = dimH b \<and> dimW a = dimW b \<and>
     elems a ! m = elems b ! m"

section \<open>Example tensors\<close>

text \<open>Small batches on which the theorems below are instantiated.\<close>

definition ex_image :: "int tensor" where
  "ex_image = \<lparr>dimN = 2, dimC = 1, dimH = 2, dimW = 2,
      elems = [[[[1, 2], [3, 4]]], [[[5, 6], [7, 8]]]]\<rparr>"

definition ex_image' :: "int tensor" where
  "ex_image' = \<lparr>dimN = 2, dimC = 1, dimH = 2, dimW = 2,
      elems = [[[[1, 2], [3, 4]]], [[[9, 9], [9, 9]]]]\<rparr>"

definition ex_features :: "int tensor" where
  "ex_features = \<lparr>dimN = 2, dimC = 4, dimH = 1, dimW = 1,
      elems = [[[[1]], [[2]], [[3]], [[4]]], [[[5]], [[6]], [[7]], [[8]]]]\<rparr>"

definition ex_features' :: "int tensor" where
  "ex_features' = \<lparr>dimN = 2, dimC = 4, dimH = 1, dimW = 1,
      elems = [[[[1]], [[2]], [[3]], [[4]]], [[[0]], [[0]], [[0]], [[0]]]]\<rparr>"

definition ex_grad :: "int tensor" where
  "ex_grad = \<lparr>dimN = 2, dimC = 1, dimH = 2, dimW = 2,
      elems = [[[[2, 3], [5, 7]]], [[[11, 13], [17, 19]]]]\<rparr>"

definition ex_thin :: "int tensor" where
  "ex_thin = \<lparr>dimN = 1, dimC = 1, dimH = 1, dimW = 2, elems = [[[[1, 2]]]]\<rparr>"

definition ex_odd :: "int tensor" where
  "ex_odd = zeros 1 3 5 4"

definition ex_three :: "int tensor" where
  "ex_three = zeros 1 3 1 1"

section \<open>Basic facts about tensors\<close>

lemma dims_mk_tensor [simp]:
  "dimN (mk_tensor N C H W f) = N" "dimC (mk_tensor N C H W f) = C"
  "dimH (mk_tensor N C H W f) = H" "dimW (mk_tensor N C H W f) = W"
  by (simp_all add: mk_tensor_def)

lemma get_mk_tensor [simp]:
  "n < N \<Longrightarrow> c < C \<Longrightarrow> h < H \<Longrightarrow> w < W \<Longrightarrow> get (mk_tensor N C H W f) n c h w = f n c h w"
  by (simp add: mk_tensor_def get_def tab4_def)

lemma wf_mk_tensor [simp]: "wf_tensor (mk_tensor N C H W f)"
  by (simp add: wf_tensor_def mk_tensor_def tab4_def list_all_iff)

lemma wf_tensor_nth:
  assumes "wf_tensor t"
  shows "length (elems t) = dimN t"
    and "n < dimN t \<Longrightarrow> length (elems t ! n) = dimC t"
    and "n < dimN t \<Longrightarrow> c < dimC t \<Longrightarrow> length (elems t ! n ! c) = dimH t"
    and "n < dimN t \<Longrightarrow> c < dimC t \<Longrightarrow> h < dimH t \<Longrightarrow> length (elems t ! n ! c ! h) = dimW t"
  using assms by (auto simp: wf_tensor_def list_all_length)

lemma image_eqI4:
  assumes "wf_tensor a" "wf_tensor b" "n < dimN a" "n < dimN b"
    and "dimC a = dimC b" "dimH a = dimH b" "dimW a = dimW b"
    and "\<And>c h w. c < dimC a \<Longrightarrow> h < dimH a \<Longrightarrow> w < dimW a \<Longrightarrow> get a n c h w = get b n c h w"
  shows "elems a ! n = elems b ! n"
proof (rule nth_equalityI)
  show "length (elems a ! n) = length (elems b ! n)"
    using assms by (simp add: wf_tensor_nth)
next
  fix c assume "c < length (elems a ! n)"
  then have c: "c < dimC a" using assms by (simp add: wf_tensor_nth)
  show "elems a ! n ! c = elems b ! n ! c"
  proof (rule nth_equalityI)
    show "length (elems a ! n ! c) = length (elems b ! n ! c)"
      using assms c by (simp add: wf_tensor_nth)
  next
    fix h assume "h < length (elems a ! n ! c)"
    then have h: "h < dimH a" using assms c by (simp add: wf_tensor_nth)
    show "elems a ! n ! c ! h = elems b ! n ! c ! h"
    proof (rule nth_equalityI)
      show "length (elems a ! n ! c ! h) = length (elems b ! n ! c ! h)"
        using assms c h by (simp add: wf_tensor_nth)
    next
      fix w assume "w < length (elems a ! n ! c ! h)"
      then have w: "w < dimW a" using assms c h by (simp add: wf_tensor_nth)
      show "elems a ! n ! c ! h ! w = elems b ! n ! c ! h ! w"
        using assms(8)[OF c h w] by (simp add: get_def)
    qed
  qed
qed

lemma tensor_eqI:
  fixes a b :: "'a tensor"
  assumes "wf_tensor a" "wf_tensor b"
    and "dimN a = dimN b" "dimC a = dimC b" "dimH a = dimH b" "dimW a = dimW b"
    and "\<And>n c h w. n < dimN a \<Longrightarrow> c < dimC a \<Longrightarrow> h < dimH a \<Longrightarrow> w < dimW a \<Longrightarrow>
           get a n c h w = get b n c h w"
  shows "a = b"
proof -
  have "elems a = elems b"
  proof (rule nth_equalityI)
    show "length (elems a) = length (elems b)"
      using assms by (simp add: wf_tensor_nth)
  next
    fix n assume "n < length (elems a)"
    then have n: "n < dimN a" using assms by (simp add: wf_tensor_nth)
    show "elems a ! n = elems b ! n"
      using assms n by (intro image_eqI4) simp_all
  qed
  then show ?thesis using assms(3-6) by simp
qed

lemma idxL_nth:
  "k < 4 \<Longrightarrow> idxL ! k ! 0 = k div 2" "k < 4 \<Longrightarrow> idxL ! k ! Suc 0 = k mod 2"
  "k < 4 \<Longrightarrow> idxL ! k ! 1 = k mod 2"
proof -
  assume "k < 4"
  then have "k = 0 \<or> k = 1 \<or> k = 2 \<or> k = 3" by arith
  then show "idxL ! k ! 0 = k div 2" "idxL ! k ! Suc 0 = k mod 2" "idxL ! k ! 1 = k mod 2"
    by (auto simp: idxL_def)
qed

lemma upt_0_4: "[0..<4] = [0, 1, 2, 3]"
  by (simp add: upt_rec)

subsection \<open>Facts about slices\<close>

lemma slice_len_all [simp]: "slice_len slice_all n = n"
  by (simp add: slice_all_def)

lemma on_slice_all [simp]: "on_slice slice_all n i \<longleftrightarrow> i < n"
  by (simp add: slice_all_def)

lemma slice_rel_all [simp]: "slice_rel slice_all i = i"
  by (simp add: slice_all_def)

lemma slice_at_all [simp]: "slice_at slice_all i = i"
  by (simp add: slice_all_def)

lemma bidx_less [simp]: "i < d \<Longrightarrow> bidx d i = i"
  by (simp add: bidx_def)

lemma slice_len_chan: "idx < 4 \<Longrightarrow> slice_len (Slice idx (Some (4 * C)) 4) (4 * C) = C"
  by simp

lemma slice_len_par_even: "even H \<Longrightarrow> r \<le> 1 \<Longrightarrow> slice_len (Slice r None 2) H = H div 2"
  by (auto elim!: evenE)

lemma on_slice_chan:
  "idx < 4 \<Longrightarrow> c < 4 * C \<Longrightarrow> on_slice (Slice idx (Some (4 * C)) 4) (4 * C) c \<longleftrightarrow> c mod 4 = idx"
  by (auto simp: mod_eq_dvd_iff_nat) presburger+

subsection \<open>One assignment of the de-interleaving loop\<close>

lemma idxL_le1: "idx < 4 \<Longrightarrow> idxL ! idx ! 0 \<le> 1" "idx < 4 \<Longrightarrow> idxL ! idx ! 1 \<le> 1"
  by (simp_all add: idxL_nth)

lemma sub_mod_div: "c mod 4 = idx \<Longrightarrow> (c - idx) div 4 = c div (4::nat)"
proof -
  assume "c mod 4 = idx"
  moreover have "c - c mod 4 = 4 * (c div 4)"
    by (rule minus_mod_eq_mult_div)
  ultimately show ?thesis by simp
qed

lemma get_getitem4:
  "n < slice_len s0 (dimN t) \<Longrightarrow> c < slice_len s1 (dimC t) \<Longrightarrow>
   h < slice_len s2 (dimH t) \<Longrightarrow> w < slice_len s3 (dimW t) \<Longrightarrow>
   get (getitem4 t s0 s1 s2 s3) n c h w =
     get t (slice_at s0 n) (slice_at s1 c) (slice_at s2 h) (slice_at s3 w)"
  by (simp add: getitem4_def)

lemma dims_getitem4 [simp]:
  "dimN (getitem4 t s0 s1 s2 s3) = slice_len s0 (dimN t)"
  "dimC (getitem4 t s0 s1 s2 s3) = slice_len s1 (dimC t)"
  "dimH (getitem4 t s0 s1 s2 s3) = slice_len s2 (dimH t)"
  "dimW (getitem4 t s0 s1 s2 s3) = slice_len s3 (dimW t)"
  by (simp_all add: getitem4_def)

lemma setitem_down:
  fixes inp out :: "'a tensor"
  assumes dims: "dimN out = dimN inp" "dimC out = 4 * dimC inp"
      "dimH out = dimH inp div 2" "dimW out = dimW inp div 2"
    and ev: "even (dimH inp)" "even (dimW inp)" and idx: "idx < 4"
  shows "\<exists>out'. setitem4 out slice_all (Slice idx (Some (4 * dimC inp)) 4) slice_all slice_all
           (getitem4 inp slice_all slice_all
              (Slice (idxL ! idx ! 0) None 2) (Slice (idxL ! idx ! 1) None 2)) = Inr out' \<and>
         wf_tensor out' \<and>
         dimN out' = dimN out \<and> dimC out' = dimC out \<and> dimH out' = dimH out \<and> dimW out' = dimW out \<and>
         (\<forall>n c h w. n < dimN out \<longrightarrow> c < dimC out \<longrightarrow> h < dimH out \<longrightarrow> w < dimW out \<longrightarrow>
            get out' n c h w =
              (if c mod 4 = idx
               then get inp n (c div 4) (2 * h + idxL ! idx ! 0) (2 * w + idxL ! idx ! 1)
               else get out n c h w))"
proof -
  let ?r = "idxL ! idx ! 0" and ?s = "idxL ! idx ! 1"
  let ?src = "getitem4 inp slice_all slice_all (Slice ?r None 2) (Slice ?s None 2)"
  let ?sc = "Slice idx (Some (4 * dimC inp)) 4"
  have lh: "slice_len (Slice ?r None 2) (dimH inp) = dimH inp div 2"
    using ev idx by (intro slice_len_par_even idxL_le1)
  have lw: "slice_len (Slice ?s None 2) (dimW inp) = dimW inp div 2"
    using ev idx by (intro slice_len_par_even idxL_le1)
  have lc: "slice_len ?sc (4 * dimC inp) = dimC inp"
    using idx by (rule slice_len_chan)
  have sd: "dimN ?src = dimN inp" "dimC ?src = dimC inp"
      "dimH ?src = dimH inp div 2" "dimW ?src = dimW inp div 2"
    using lh lw by simp_all
  define f where "f = (\<lambda>n c h w.
           if on_slice slice_all (dimN out) n \<and> on_slice ?sc (dimC out) c \<and>
              on_slice slice_all (dimH out) h \<and> on_slice slice_all (dimW out) w
           then get ?src (bidx (dimN ?src) (slice_rel slice_all n)) (bidx (dimC ?src) (slice_rel ?sc c))
                        (bidx (dimH ?src) (slice_rel slice_all h)) (bidx (dimW ?src) (slice_rel slice_all w))
           else get out n c h w)"
  define out' where "out' = mk_tensor (dimN out) (dimC out) (dimH out) (dimW out) f"
  have ex: "expandable (dimN ?src) (slice_len slice_all (dimN out))"
      "expandable (dimC ?src) (slice_len ?sc (dimC out))"
      "expandable (dimH ?src) (slice_len slice_all (dimH out))"
      "expandable (dimW ?src) (slice_len slice_all (dimW out))"
    unfolding sd dims lc by (simp_all add: expandable_def)
  have res: "setitem4 out slice_all ?sc slice_all slice_all ?src = Inr out'"
    unfolding setitem4_def out'_def f_def using ex by simp
  have g: "get out' n c h w =
              (if c mod 4 = idx then get inp n (c div 4) (2 * h + ?r) (2 * w + ?s)
               else get out n c h w)"
    if b: "n < dimN out" "c < dimC out" "h < dimH out" "w < dimW out" for n c h w
  proof -
    have on: "on_slice ?sc (dimC out) c \<longleftrightarrow> c mod 4 = idx"
      using b idx unfolding dims by (intro on_slice_chan)
    have 1: "get out' n c h w = f n c h w"
      unfolding out'_def using b by simp
    show ?thesis
    proof (cases "c mod 4 = idx")
      case True
      have cd: "c div 4 < dimC inp" using b dims by simp
      have rel: "slice_rel ?sc c = c div 4"
        using True by (simp add: sub_mod_div)
      have "f n c h w = get ?src n (c div 4) h w"
        unfolding f_def on rel sd using b True cd dims by simp
      also have "\<dots> = get inp n (c div 4) (2 * h + ?r) (2 * w + ?s)"
        using b cd dims lh lw by (subst get_getitem4) (simp_all add: mult.commute add.commute)
      finally show ?thesis using 1 True by simp
    next
      case False
      have "f n c h w = get out n c h w"
        unfolding f_def on using False by simp
      then show ?thesis using 1 False by simp
    qed
  qed
  show ?thesis
    using res g by (intro exI[of _ out']) (simp add: out'_def)
qed

subsection \<open>The de-interleaving loop\<close>

lemma populate_down_ok:
  fixes inp out :: "'a tensor"
  assumes "dimN out = dimN inp" "dimC out = 4 * dimC inp"
      "dimH out = dimH inp div 2" "dimW out = dimW inp div 2"
    and "even (dimH inp)" "even (dimW inp)" and "\<forall>idx\<in>set idxs. idx < 4"
    and "wf_tensor out"
  shows "\<exists>out'. populate_down inp (4 * dimC inp) 2 4 idxs out = Inr out' \<and>
         wf_tensor out' \<and>
         dimN out' = dimN out \<and> dimC out' = dimC out \<and> dimH out' = dimH out \<and> dimW out' = dimW out \<and>
         (\<forall>n c h w. n < dimN out \<longrightarrow> c < dimC out \<longrightarrow> h < dimH out \<longrightarrow> w < dimW out \<longrightarrow>
            get out' n c h w =
              (if c mod 4 \<in> set idxs
               then get inp n (c div 4) (2 * h + idxL ! (c mod 4) ! 0) (2 * w + idxL ! (c mod 4) ! 1)
               else get out n c h w))"
  using assms
proof (induction idxs arbitrary: out)
  case Nil
  then show ?case by simp
next
  case (Cons idx rest)
  from Cons.prems have idx: "idx < 4" by simp
  from setitem_down[OF Cons.prems(1-6) idx]
  obtain o1 where o1: "setitem4 out slice_all (Slice idx (Some (4 * dimC inp)) 4) slice_all slice_all
           (getitem4 inp slice_all slice_all
              (Slice (idxL ! idx ! 0) None 2) (Slice (idxL ! idx ! 1) None 2)) = Inr o1"
    and wf1: "wf_tensor o1"
    and d1: "dimN o1 = dimN out" "dimC o1 = dimC out" "dimH o1 = dimH out" "dimW o1 = dimW out"
    and g1: "\<And>n c h w. n < dimN out \<Longrightarrow> c < dimC out \<Longrightarrow> h < dimH out \<Longrightarrow> w < dimW out \<Longrightarrow>
            get o1 n c h w =
              (if c mod 4 = idx
               then get inp n (c div 4) (2 * h + idxL ! idx ! 0) (2 * w + idxL ! idx ! 1)
               else get out n c h w)"
    by blast
  have "\<exists>out'. populate_down inp (4 * dimC inp) 2 4 rest o1 = Inr out' \<and>
         wf_tensor out' \<and>
         dimN out' = dimN o1 \<and> dimC out' = dimC o1 \<and> dimH out' = dimH o1 \<and> dimW out' = dimW o1 \<and>
         (\<forall>n c h w. n < dimN o1 \<longrightarrow> c < dimC o1 \<longrightarrow> h < dimH o1 \<longrightarrow> w < dimW o1 \<longrightarrow>
            get out' n c h w =
              (if c mod 4 \<in> set rest
               then get inp n (c div 4) (2 * h + idxL ! (c mod 4) ! 0) (2 * w + idxL ! (c mod 4) ! 1)
               else get o1 n c h w))"
    using Cons.prems d1 wf1 by (intro Cons.IH) simp_all
  then obtain o2 where o2: "populate_down inp (4 * dimC inp) 2 4 rest o1 = Inr o2"
    and wf2: "wf_tensor o2"
    and d2: "dimN o2 = dimN o1" "dimC o2 = dimC o1" "dimH o2 = dimH o1" "dimW o2 = dimW o1"
    and g2: "\<And>n c h w. n < dimN o1 \<Longrightarrow> c < dimC o1 \<Longrightarrow> h < dimH o1 \<Longrightarrow> w < dimW o1 \<Longrightarrow>
            get o2 n c h w =
              (if c mod 4 \<in> set rest
               then get inp n (c div 4) (2 * h + idxL ! (c mod 4) ! 0) (2 * w + idxL ! (c mod 4) ! 1)
               else get o1 n c h w)"
    by blast
  have res: "populate_down inp (4 * dimC inp) 2 4 (idx # rest) out = Inr o2"
    using o1 o2 by simp
  have "get o2 n c h w =
              (if c mod 4 \<in> set (idx # rest)
               then get inp n (c div 4) (2 * h + idxL ! (c mod 4) ! 0) (2 * w + idxL ! (c mod 4) ! 1)
               else get out n c h w)"
    if "n < dimN out" "c < dimC out" "h < dimH out" "w < dimW out" for n c h w
    using that g1[of n c h w] g2[of n c h w] d1 by auto
  then show ?case using res wf2 d1 d2 by (intro exI[of _ o2]) simp
qed

subsection \<open>What concatenate_input_noise_map returns\<close>

lemma wf_zeros [simp]: "wf_tensor (zeros N C H W)"
  by (simp add: zeros_def)

lemma dims_zeros [simp]:
  "dimN (zeros N C H W) = N" "dimC (zeros N C H W) = C"
  "dimH (zeros N C H W) = H" "dimW (zeros N C H W) = W"
  by (simp_all add: zeros_def)

lemma get_zeros [simp]:
  "n < N \<Longrightarrow> c < C \<Longrightarrow> h < H \<Longrightarrow> w < W \<Longrightarrow> get (zeros N C H W) n c h w = 0"
  by (simp add: zeros_def)

lemma deinterleave_zeros:
  fixes inp :: "'a::zero tensor"
  assumes "even (dimH inp)" "even (dimW inp)"
  shows "\<exists>out'. populate_down inp (4 * dimC inp) 2 4 [0..<4]
             (zeros (dimN inp) (4 * dimC inp) (dimH inp div 2) (dimW inp div 2)) = Inr out' \<and>
         wf_tensor out' \<and>
         dimN out' = dimN inp \<and> dimC out' = 4 * dimC inp \<and>
         dimH out' = dimH inp div 2 \<and> dimW out' = dimW inp div 2 \<and>
         (\<forall>n c h w. n < dimN inp \<longrightarrow> c < 4 * dimC inp \<longrightarrow> h < dimH inp div 2 \<longrightarrow> w < dimW inp div 2 \<longrightarrow>
            get out' n c h w =
              get inp n (c div 4) (2 * h + idxL ! (c mod 4) ! 0) (2 * w + idxL ! (c mod 4) ! 1))"
proof -
  let ?z = "zeros (dimN inp) (4 * dimC inp) (dimH inp div 2) (dimW inp div 2) :: 'a tensor"
  have in4: "c mod 4 \<in> set [0..<4]" for c :: nat by simp
  have "\<exists>out'. populate_down inp (4 * dimC inp) 2 4 [0..<4] ?z = Inr out' \<and>
         wf_tensor out' \<and>
         dimN out' = dimN ?z \<and> dimC out' = dimC ?z \<and> dimH out' = dimH ?z \<and> dimW out' = dimW ?z \<and>
         (\<forall>n c h w. n < dimN ?z \<longrightarrow> c < dimC ?z \<longrightarrow> h < dimH ?z \<longrightarrow> w < dimW ?z \<longrightarrow>
            get out' n c h w =
              (if c mod 4 \<in> set [0..<4]
               then get inp n (c div 4) (2 * h + idxL ! (c mod 4) ! 0) (2 * w + idxL ! (c mod 4) ! 1)
               else get ?z n c h w))"
    using assms by (intro populate_down_ok) simp_all
  then show ?thesis
    unfolding if_P[OF in4] dims_zeros by assumption
qed

lemma fold_ok:
  fixes input :: "'a::zero tensor"
  assumes ev: "even (dimH input)" "even (dimW input)"
    and len: "length noise_sigma = dimN input"
  shows "\<exists>f. concatenate_input_noise_map input noise_sigma = Inr f \<and>
      wf_tensor f \<and>
      dimN f = dimN input \<and> dimC f = 5 * dimC input \<and>
      dimH f = dimH input div 2 \<and> dimW f = dimW input div 2 \<and>
      (\<forall>n c h w. n < dimN input \<longrightarrow> c < 5 * dimC input \<longrightarrow>
         h < dimH input div 2 \<longrightarrow> w < dimW input div 2 \<longrightarrow>
         get f n c h w =
           (if c < dimC input then noise_sigma ! n
            else get input n ((c - dimC input) div 4)
                   (2 * h + idxL ! ((c - dimC input) mod 4) ! 0)
                   (2 * w + idxL ! ((c - dimC input) mod 4) ! 1)))"
proof -
  let ?N = "dimN input" and ?C = "dimC input" and ?Ho = "dimH input div 2" and ?Wo = "dimW input div 2"
  define v where "v = mk_tensor ?N 1 1 1 (\<lambda>n c h w. noise_sigma ! n)"
  define nm where "nm = repeat4 v 1 ?C ?Ho ?Wo"
  have view: "view_N111 noise_sigma ?N = Inr v"
    using len by (simp add: view_N111_def v_def)
  have nmd: "dimN nm = ?N" "dimC nm = ?C" "dimH nm = ?Ho" "dimW nm = ?Wo"
    by (simp_all add: nm_def repeat4_def v_def)
  have nmg: "get nm n c h w = noise_sigma ! n"
    if "n < ?N" "c < ?C" "h < ?Ho" "w < ?Wo" for n c h w
    using that by (simp add: nm_def repeat4_def v_def)
  from deinterleave_zeros[OF ev]
  obtain d where d: "populate_down input (4 * ?C) 2 4 [0..<4] (zeros ?N (4 * ?C) ?Ho ?Wo) = Inr d"
    and dd: "dimN d = ?N" "dimC d = 4 * ?C" "dimH d = ?Ho" "dimW d = ?Wo"
    and dg: "\<And>n c h w. n < ?N \<Longrightarrow> c < 4 * ?C \<Longrightarrow> h < ?Ho \<Longrightarrow> w < ?Wo \<Longrightarrow>
            get d n c h w =
              get input n (c div 4) (2 * h + idxL ! (c mod 4) ! 0) (2 * w + idxL ! (c mod 4) ! 1)"
    by blast
  define f where "f = mk_tensor ?N (?C + 4 * ?C) ?Ho ?Wo
        (\<lambda>n c h w. if c < ?C then get nm n c h w else get d n (c - ?C) h w)"
  have cat: "cat1 nm d = Inr f"
    unfolding cat1_def nmd dd f_def by simp
  have res: "concatenate_input_noise_map input noise_sigma = Inr f"
    unfolding concatenate_input_noise_map_def Let_def
    using view d cat by (simp add: nm_def)
  have "get f n c h w =
           (if c < ?C then noise_sigma ! n
            else get input n ((c - ?C) div 4)
                   (2 * h + idxL ! ((c - ?C) mod 4) ! 0)
                   (2 * w + idxL ! ((c - ?C) mod 4) ! 1))"
    if b: "n < ?N" "c < 5 * ?C" "h < ?Ho" "w < ?Wo" for n c h w
  proof (cases "c < ?C")
    case True
    then show ?thesis using b by (simp add: f_def nmg)
  next
    case False
    then have "c - ?C < 4 * ?C" using b by simp
    then show ?thesis using b False by (simp add: f_def dg)
  qed
  then show ?thesis
    using res by (intro exI[of _ f]) (simp add: f_def)
qed

subsection \<open>One assignment of the interleaving loop\<close>

lemma slice_len_par_double: "r \<le> 1 \<Longrightarrow> slice_len (Slice r None 2) (H * 2) = H"
  by auto

lemma on_slice_par:
  "r \<le> 1 \<Longrightarrow> i < H * 2 \<Longrightarrow> on_slice (Slice r None 2) (H * 2) i \<longleftrightarrow> i mod 2 = r"
  by (auto simp: mod_eq_dvd_iff_nat) presburger+

lemma slice_rel_par: "i mod 2 = r \<Longrightarrow> slice_rel (Slice r None 2) i = i div 2"
proof -
  assume "i mod 2 = r"
  moreover have "i - i mod 2 = 2 * (i div 2)"
    by (rule minus_mod_eq_mult_div)
  ultimately show ?thesis by simp
qed

lemma offset_index:
  assumes "idx < 4"
  shows "(h mod 2 = idxL ! idx ! 0 \<and> w mod 2 = idxL ! idx ! 1) \<longleftrightarrow> 2 * (h mod 2) + w mod 2 = idx"
proof -
  have i: "idx = 0 \<or> idx = 1 \<or> idx = 2 \<or> idx = 3" using assms by arith
  have h: "h mod 2 = 0 \<or> h mod 2 = 1" and w: "w mod 2 = 0 \<or> w mod 2 = 1" by arith+
  from i h w show ?thesis
    by (elim disjE) (simp_all add: idxL_def)
qed

lemma setitem_up:
  fixes inp result :: "'a tensor"
  assumes dims: "dimN result = dimN inp" "dimC inp = 4 * dimC result"
      "dimH result = dimH inp * 2" "dimW result = dimW inp * 2"
    and idx: "idx < 4"
  shows "\<exists>res'. setitem4 result slice_all slice_all
             (Slice (idxL ! idx ! 0) None 2) (Slice (idxL ! idx ! 1) None 2)
             (getitem4 inp slice_all (Slice idx (Some (dimC inp)) 4) slice_all slice_all) = Inr res' \<and>
         wf_tensor res' \<and>
         dimN res' = dimN result \<and> dimC res' = dimC result \<and>
         dimH res' = dimH result \<and> dimW res' = dimW result \<and>
         (\<forall>n c h w. n < dimN result \<longrightarrow> c < dimC result \<longrightarrow> h < dimH result \<longrightarrow> w < dimW result \<longrightarrow>
            get res' n c h w =
              (if 2 * (h mod 2) + w mod 2 = idx
               then get inp n (idx + 4 * c) (h div 2) (w div 2)
               else get result n c h w))"
proof -
  let ?r = "idxL ! idx ! 0" and ?s = "idxL ! idx ! 1"
  let ?sc = "Slice idx (Some (dimC inp)) 4"
  let ?sh = "Slice ?r None 2" and ?sw = "Slice ?s None 2"
  let ?src = "getitem4 inp slice_all ?sc slice_all slice_all"
  have r1: "?r \<le> 1" and s1: "?s \<le> 1" using idx by (rule idxL_le1)+
  have lc: "slice_len ?sc (dimC inp) = dimC result"
    unfolding dims using idx by (rule slice_len_chan)
  have sd: "dimN ?src = dimN inp" "dimC ?src = dimC result"
      "dimH ?src = dimH inp" "dimW ?src = dimW inp"
    using lc by simp_all
  have lh: "slice_len ?sh (dimH result) = dimH inp" "slice_len ?sw (dimW result) = dimW inp"
    unfolding dims by (rule slice_len_par_double[OF r1], rule slice_len_par_double[OF s1])
  define f where "f = (\<lambda>n c h w.
           if on_slice slice_all (dimN result) n \<and> on_slice slice_all (dimC result) c \<and>
              on_slice ?sh (dimH result) h \<and> on_slice ?sw (dimW result) w
           then get ?src (bidx (dimN ?src) (slice_rel slice_all n)) (bidx (dimC ?src) (slice_rel slice_all c))
                        (bidx (dimH ?src) (slice_rel ?sh h)) (bidx (dimW ?src) (slice_rel ?sw w))
           else get result n c h w)"
  define res' where "res' = mk_tensor (dimN result) (dimC result) (dimH result) (dimW result) f"
  have ex: "expandable (dimN ?src) (slice_len slice_all (dimN result))"
      "expandable (dimC ?src) (slice_len slice_all (dimC result))"
      "expandable (dimH ?src) (slice_len ?sh (dimH result))"
      "expandable (dimW ?src) (slice_len ?sw (dimW result))"
    unfolding sd lh using dims by (simp_all add: expandable_def)
  have res: "setitem4 result slice_all slice_all ?sh ?sw ?src = Inr res'"
    unfolding setitem4_def res'_def f_def using ex by simp
  have g: "get res' n c h w =
              (if 2 * (h mod 2) + w mod 2 = idx
               then get inp n (idx + 4 * c) (h div 2) (w div 2)
               else get result n c h w)"
    if b: "n < dimN result" "c < dimC result" "h < dimH result" "w < dimW result" for n c h w
  proof -
    have onh: "on_slice ?sh (dimH result) h \<longleftrightarrow> h mod 2 = ?r"
      using b r1 unfolding dims by (intro on_slice_par)
    have onw: "on_slice ?sw (dimW result) w \<longleftrightarrow> w mod 2 = ?s"
      using b s1 unfolding dims by (intro on_slice_par)
    have 1: "get res' n c h w = f n c h w"
      unfolding res'_def using b by simp
    show ?thesis
    proof (cases "2 * (h mod 2) + w mod 2 = idx")
      case True
      then have hw: "h mod 2 = ?r" "w mod 2 = ?s"
        using offset_index[OF idx, of h w] by simp_all
      have relh: "slice_rel ?sh h = h div 2" using hw by (intro slice_rel_par)
      have relw: "slice_rel ?sw w = w div 2" using hw by (intro slice_rel_par)
      have hd: "h div 2 < dimH inp" "w div 2 < dimW inp" using b dims by simp_all
      have "f n c h w = get ?src n c (h div 2) (w div 2)"
        unfolding f_def onh onw relh relw sd using b hw hd dims by simp
      also have "\<dots> = get inp n (idx + 4 * c) (h div 2) (w div 2)"
        using b hd dims lc by (subst get_getitem4) (simp_all add: mult.commute)
      finally show ?thesis using 1 True by simp
    next
      case False
      then have "\<not> (h mod 2 = ?r \<and> w mod 2 = ?s)"
        using offset_index[OF idx, of h w] by simp
      then have "f n c h w = get result n c h w"
        unfolding f_def onh onw by auto
      then show ?thesis using 1 False by simp
    qed
  qed
  show ?thesis
    using res g by (intro exI[of _ res']) (simp add: res'_def)
qed

subsection \<open>What forward and backward return\<close>

lemma populate_up_ok:
  fixes inp result :: "'a tensor"
  assumes "dimN result = dimN inp" "dimC inp = 4 * dimC result"
      "dimH result = dimH inp * 2" "dimW result = dimW inp * 2"
    and "\<forall>idx\<in>set idxs. idx < 4"
    and "wf_tensor result"
  shows "\<exists>res'. populate_up inp (dimC inp) 2 4 idxs result = Inr res' \<and>
         wf_tensor res' \<and>
         dimN res' = dimN result \<and> dimC res' = dimC result \<and>
         dimH res' = dimH result \<and> dimW res' = dimW result \<and>
         (\<forall>n c h w. n < dimN result \<longrightarrow> c < dimC result \<longrightarrow> h < dimH result \<longrightarrow> w < dimW result \<longrightarrow>
            get res' n c h w =
              (if 2 * (h mod 2) + w mod 2 \<in> set idxs
               then get inp n (2 * (h mod 2) + w mod 2 + 4 * c) (h div 2) (w div 2)
               else get result n c h w))"
  using assms
proof (induction idxs arbitrary: result)
  case Nil
  then show ?case by simp
next
  case (Cons idx rest)
  from Cons.prems have idx: "idx < 4" by simp
  from setitem_up[OF Cons.prems(1-4) idx]
  obtain r1 where r1: "setitem4 result slice_all slice_all
             (Slice (idxL ! idx ! 0) None 2) (Slice (idxL ! idx ! 1) None 2)
             (getitem4 inp slice_all (Slice idx (Some (dimC inp)) 4) slice_all slice_all) = Inr r1"
    and wf1: "wf_tensor r1"
    and d1: "dimN r1 = dimN result" "dimC r1 = dimC result" "dimH r1 = dimH result" "dimW r1 = dimW result"
    and g1: "\<And>n c h w. n < dimN result \<Longrightarrow> c < dimC result \<Longrightarrow> h < dimH result \<Longrightarrow> w < dimW result \<Longrightarrow>
            get r1 n c h w =
              (if 2 * (h mod 2) + w mod 2 = idx
               then get inp n (idx + 4 * c) (h div 2) (w div 2)
               else get result n c h w)"
    by blast
  have "\<exists>res'. populate_up inp (dimC inp) 2 4 rest r1 = Inr res' \<and>
         wf_tensor res' \<and>
         dimN res' = dimN r1 \<and> dimC res' = dimC r1 \<and> dimH res' = dimH r1 \<and> dimW res' = dimW r1 \<and>
         (\<forall>n c h w. n < dimN r1 \<longrightarrow> c < dimC r1 \<longrightarrow> h < dimH r1 \<longrightarrow> w < dimW r1 \<longrightarrow>
            get res' n c h w =
              (if 2 * (h mod 2) + w mod 2 \<in> set rest
               then get inp n (2 * (h mod 2) + w mod 2 + 4 * c) (h div 2) (w div 2)
               else get r1 n c h w))"
    using Cons.prems d1 wf1 by (intro Cons.IH) simp_all
  then obtain r2 where r2: "populate_up inp (dimC inp) 2 4 rest r1 = Inr r2"
    and wf2: "wf_tensor r2"
    and d2: "dimN r2 = dimN r1" "dimC r2 = dimC r1" "dimH r2 = dimH r1" "dimW r2 = dimW r1"
    and g2: "\<And>n c h w. n < dimN r1 \<Longrightarrow> c < dimC r1 \<Longrightarrow> h < dimH r1 \<Longrightarrow> w < dimW r1 \<Longrightarrow>
            get r2 n c h w =
              (if 2 * (h mod 2) + w mod 2 \<in> set rest
               then get inp n (2 * (h mod 2) + w mod 2 + 4 * c) (h div 2) (w div 2)
               else get r1 n c h w)"
    by blast
  have res: "populate_up inp (dimC inp) 2 4 (idx # rest) result = Inr r2"
    using r1 r2 by simp
  have "get r2 n c h w =
              (if 2 * (h mod 2) + w mod 2 \<in> set (idx # rest)
               then get inp n (2 * (h mod 2) + w mod 2 + 4 * c) (h div 2) (w div 2)
               else get result n c h w)"
    if "n < dimN result" "c < dimC result" "h < dimH result" "w < dimW result" for n c h w
    using that g1[of n c h w] g2[of n c h w] d1 by auto
  then show ?case using res wf2 d1 d2 by (intro exI[of _ r2]) simp
qed

lemma offset_lt4: "2 * (h mod 2) + w mod 2 \<in> set [0..<4]" for h w :: nat
proof -
  have "h mod 2 < 2" "w mod 2 < 2" by simp_all
  then have "2 * (h mod 2) + w mod 2 < 4" by linarith
  then show ?thesis by simp
qed

lemma forward_ok:
  fixes input :: "'a::zero tensor"
  assumes c4: "dimC input mod 4 = 0"
  shows "\<exists>u. forward input = Inr u \<and> wf_tensor u \<and>
      dimN u = dimN input \<and> dimC u = dimC input div 4 \<and>
      dimH u = 2 * dimH input \<and> dimW u = 2 * dimW input \<and>
      (\<forall>n c h w. n < dimN input \<longrightarrow> c < dimC input div 4 \<longrightarrow>
         h < 2 * dimH input \<longrightarrow> w < 2 * dimW input \<longrightarrow>
         get u n c h w = get input n (2 * (h mod 2) + w mod 2 + 4 * c) (h div 2) (w div 2))"
proof -
  let ?z = "zeros (dimN input) (dimC input div 4) (dimH input * 2) (dimW input * 2) :: 'a tensor"
  have fw: "forward input = populate_up input (dimC input) 2 4 [0..<4] ?z"
    using c4 by (simp add: forward_def Let_def)
  have c: "dimC input = 4 * dimC ?z" using c4 by auto
  have "\<exists>res'. populate_up input (dimC input) 2 4 [0..<4] ?z = Inr res' \<and>
         wf_tensor res' \<and>
         dimN res' = dimN ?z \<and> dimC res' = dimC ?z \<and>
         dimH res' = dimH ?z \<and> dimW res' = dimW ?z \<and>
         (\<forall>n c h w. n < dimN ?z \<longrightarrow> c < dimC ?z \<longrightarrow> h < dimH ?z \<longrightarrow> w < dimW ?z \<longrightarrow>
            get res' n c h w =
              (if 2 * (h mod 2) + w mod 2 \<in> set [0..<4]
               then get input n (2 * (h mod 2) + w mod 2 + 4 * c) (h div 2) (w div 2)
               else get ?z n c h w))"
    using c by (intro populate_up_ok) simp_all
  then show ?thesis
    unfolding fw if_P[OF offset_lt4] dims_zeros by (simp add: mult.commute)
qed

lemma backward_ok:
  fixes grad_output :: "'a::zero tensor"
  assumes "even (dimH grad_output)" "even (dimW grad_output)"
  shows "\<exists>b. backward grad_output = Inr b \<and> wf_tensor b \<and>
      dimN b = dimN grad_output \<and> dimC b = 4 * dimC grad_output \<and>
      dimH b = dimH grad_output div 2 \<and> dimW b = dimW grad_output div 2 \<and>
      (\<forall>n c h w. n < dimN grad_output \<longrightarrow> c < 4 * dimC grad_output \<longrightarrow>
         h < dimH grad_output div 2 \<longrightarrow> w < dimW grad_output div 2 \<longrightarrow>
         get b n c h w =
           get grad_output n (c div 4) (2 * h + idxL ! (c mod 4) ! 0) (2 * w + idxL ! (c mod 4) ! 1))"
proof -
  have "backward grad_output =
      populate_down grad_output (4 * dimC grad_output) 2 4 [0..<4]
        (zeros (dimN grad_output) (4 * dimC grad_output)
           (dimH grad_output div 2) (dimW grad_output div 2))"
    by (simp add: backward_def Let_def)
  then show ?thesis
    using deinterleave_zeros[OF assms] by simp
qed

section \<open>The properties of the specification\<close>

text \<open>
  The concrete example of the specification, with the noise level 5 in place of 0.5:
  the 2 by 2 image \<open>[[1, 2], [3, 4]]\<close> folds to the five channels 5, 1, 2, 3, 4.
\<close>

lemma fold_concrete_example:
  "concatenate_input_noise_map
     \<lparr>dimN = 1, dimC = 1, dimH = 2, dimW = 2, elems = [[[[1, 2], [3, 4 :: int]]]]\<rparr> [5] =
   Inr \<lparr>dimN = 1, dimC = 5, dimH = 1, dimW = 1,
        elems = [[[[5]], [[1]], [[2]], [[3]], [[4]]]]\<rparr>"
  by code_simp

text \<open>
  Claim C4 (shape law). On an image batch of size (N, C, H, W) with H and W even, and a
  noise vector of length N, \<open>concatenate_input_noise_map\<close> returns a tensor of size
  (N, 5C, H/2, W/2). On a tensor of size (N, Cin, Hin, Win) with Cin divisible by 4,
  \<open>forward\<close> returns a tensor of size (N, Cin/4, 2 Hin, 2 Win). Both results hold
  elements of exactly that size.
\<close>

theorem shape_law:
  fixes input x :: "'a::zero tensor"
  assumes "even (dimH input)" "even (dimW input)" "length noise_sigma = dimN input"
    and "dimC x mod 4 = 0"
  shows "(\<exists>f. concatenate_input_noise_map input noise_sigma = Inr f \<and> wf_tensor f \<and>
            size4 f = (dimN input, 5 * dimC input, dimH input div 2, dimW input div 2)) \<and>
         (\<exists>u. forward x = Inr u \<and> wf_tensor u \<and>
            size4 u = (dimN x, dimC x div 4, 2 * dimH x, 2 * dimW x))"
proof
  from fold_ok[OF assms(1-3)]
  show "\<exists>f. concatenate_input_noise_map input noise_sigma = Inr f \<and> wf_tensor f \<and>
            size4 f = (dimN input, 5 * dimC input, dimH input div 2, dimW input div 2)"
    unfolding size4_def by blast
next
  from forward_ok[OF assms(4)]
  show "\<exists>u. forward x = Inr u \<and> wf_tensor u \<and>
            size4 u = (dimN x, dimC x div 4, 2 * dimH x, 2 * dimW x)"
    unfolding size4_def by blast
qed

theorem shape_law_witness:
  "even (dimH ex_image) \<and> even (dimW ex_image) \<and> length [5, 6 :: int] = dimN ex_image \<and>
   dimC ex_features mod 4 = 0 \<and>
   (\<exists>f. concatenate_input_noise_map ex_image [5, 6] = Inr f \<and> wf_tensor f \<and>
      size4 f = (2, 5, 1, 1)) \<and>
   (\<exists>u. forward ex_features = Inr u \<and> wf_tensor u \<and> size4 u = (2, 1, 2, 2))"
proof -
  have h: "even (dimH ex_image)" "even (dimW ex_image)" "length [5, 6 :: int] = dimN ex_image"
    "dimC ex_features mod 4 = 0"
    by (simp_all add: ex_image_def ex_features_def)
  from shape_law[OF h] h show ?thesis
    by (simp add: ex_image_def ex_features_def)
qed

text \<open>
  Claim C6. When the number of channels is not divisible by 4, \<open>forward\<close> returns no
  tensor: it raises the assertion error whose message names the violated condition.
\<close>

theorem unfold_rejects_channels:
  fixes input :: "'a::zero tensor"
  assumes "dimC input mod 4 \<noteq> 0"
  shows "forward input = Inl (AssertionError
           ''Invalid input dimensions: number of channels should be divisible by 4'')"
  using assms by (simp add: forward_def Let_def)

theorem unfold_rejects_channels_witness:
  "dimC ex_three mod 4 \<noteq> 0 \<and>
   forward ex_three = Inl (AssertionError
           ''Invalid input dimensions: number of channels should be divisible by 4'')"
proof -
  have h: "dimC ex_three mod 4 \<noteq> 0" by (simp add: ex_three_def)
  from unfold_rejects_channels[OF h] h show ?thesis by simp
qed

text \<open>
  Claim C8. When the length of the noise vector differs from the batch size N,
  \<open>concatenate_input_noise_map\<close> returns no tensor: the view of the noise vector to
  size (N, 1, 1, 1) raises.
\<close>

theorem fold_rejects_noise_length:
  fixes input :: "'a::zero tensor"
  assumes "length noise_sigma \<noteq> dimN input"
  shows "concatenate_input_noise_map input noise_sigma = Inl RuntimeError"
  using assms by (simp add: concatenate_input_noise_map_def Let_def view_N111_def)

theorem fold_rejects_noise_length_witness:
  "length [5 :: int] \<noteq> dimN ex_image \<and>
   concatenate_input_noise_map ex_image [5] = Inl RuntimeError"
proof -
  have h: "length [5 :: int] \<noteq> dimN ex_image" by (simp add: ex_image_def)
  from fold_rejects_noise_length[OF h] h show ?thesis by simp
qed





subsection \<open>Odd spatial sizes\<close>

lemma first_assignment_fails:
  fixes inp out :: "'a tensor"
  assumes "dimH out = dimH inp div 2" "dimW out = dimW inp div 2"
    and "odd (dimH inp) \<and> dimH inp \<noteq> 1 \<or> odd (dimW inp) \<and> dimW inp \<noteq> 1"
  shows "populate_down inp Cout 2 4 [0..<4] out = Inl RuntimeError"
proof -
  let ?src = "getitem4 inp slice_all slice_all
                (Slice (idxL ! 0 ! 0) None 2) (Slice (idxL ! 0 ! 1) None 2)"
  have sh: "dimH ?src = Suc (dimH inp) div 2" and sw: "dimW ?src = Suc (dimW inp) div 2"
    by (simp_all add: idxL_def)
  have "\<not> expandable (dimH ?src) (slice_len slice_all (dimH out)) \<or>
        \<not> expandable (dimW ?src) (slice_len slice_all (dimW out))"
    using assms(3)
  proof
    assume o: "odd (dimH inp) \<and> dimH inp \<noteq> 1"
    then obtain j where j: "dimH inp = 2 * j + 1" by (auto elim: oddE)
    with o have "j \<noteq> 0" by simp
    then have "\<not> expandable (dimH ?src) (slice_len slice_all (dimH out))"
      unfolding sh assms(1) by (simp add: j expandable_def)
    then show ?thesis ..
  next
    assume o: "odd (dimW inp) \<and> dimW inp \<noteq> 1"
    then obtain j where j: "dimW inp = 2 * j + 1" by (auto elim: oddE)
    with o have "j \<noteq> 0" by simp
    then have "\<not> expandable (dimW ?src) (slice_len slice_all (dimW out))"
      unfolding sw assms(2) by (simp add: j expandable_def)
    then show ?thesis ..
  qed
  then have "setitem4 out slice_all (Slice 0 (Some Cout) 4) slice_all slice_all ?src =
      Inl RuntimeError"
    unfolding setitem4_def by auto
  then show ?thesis
    unfolding upt_0_4 by simp
qed

text \<open>
  Claim C5, as amended. When the height or the width of the image batch is odd and
  not 1, \<open>concatenate_input_noise_map\<close> returns no tensor: the first slice assignment
  of the loop raises, as the strided slice of the input has one row (or column) more
  than the assigned slice of the output.
\<close>

theorem fold_rejects_odd_size:
  fixes input :: "'a::zero tensor"
  assumes "odd (dimH input) \<and> dimH input \<noteq> 1 \<or> odd (dimW input) \<and> dimW input \<noteq> 1"
  shows "concatenate_input_noise_map input noise_sigma = Inl RuntimeError"
proof (cases "length noise_sigma = dimN input")
  case False
  then show ?thesis
    by (simp add: concatenate_input_noise_map_def Let_def view_N111_def)
next
  case True
  have "populate_down input (4 * dimC input) 2 4 [0..<4]
          (zeros (dimN input) (4 * dimC input) (dimH input div 2) (dimW input div 2)) =
        Inl RuntimeError"
    using assms by (intro first_assignment_fails) simp_all
  then show ?thesis
    using True by (simp add: concatenate_input_noise_map_def Let_def view_N111_def)
qed

theorem fold_rejects_odd_size_witness:
  "(odd (dimH ex_odd) \<and> dimH ex_odd \<noteq> 1 \<or> odd (dimW ex_odd) \<and> dimW ex_odd \<noteq> 1) \<and>
   concatenate_input_noise_map ex_odd [5] = Inl RuntimeError"
proof -
  have h: "odd (dimH ex_odd) \<and> dimH ex_odd \<noteq> 1 \<or> odd (dimW ex_odd) \<and> dimW ex_odd \<noteq> 1"
    by (simp add: ex_odd_def)
  from fold_rejects_odd_size[OF h] h show ?thesis by simp
qed

text \<open>
  Claim C5 as stated fails: on a batch of height 1 the height of the output is
  \<open>1 div 2 = 0\<close>, the one row of the strided slice is expanded to the empty assigned
  slice, and the function returns an empty tensor instead of raising.
\<close>

theorem fold_accepts_height_one:
  "odd (dimH ex_thin) \<and>
   concatenate_input_noise_map ex_thin [5] =
     Inr \<lparr>dimN = 1, dimC = 5, dimH = 0, dimW = 1, elems = [[[], [], [], [], []]]\<rparr>"
  unfolding ex_thin_def by code_simp

subsection \<open>Round trips\<close>


lemma channel_parts:
  "2 * ((2 * h + idxL ! (c mod 4) ! 0) mod 2) + (2 * w + idxL ! (c mod 4) ! 1) mod 2 + 4 * (c div 4) = c"
  "(2 * h + idxL ! (c mod 4) ! 0) div 2 = h"
  "(2 * w + idxL ! (c mod 4) ! 1) div 2 = w"
proof -
  have k: "c mod 4 = 0 \<or> c mod 4 = 1 \<or> c mod 4 = 2 \<or> c mod 4 = 3" by arith
  have c: "c = c mod 4 + 4 * (c div 4)" by simp
  from k show "(2 * h + idxL ! (c mod 4) ! 0) div 2 = h"
    by (elim disjE) (simp_all add: idxL_def)
  from k show "(2 * w + idxL ! (c mod 4) ! 1) div 2 = w"
    by (elim disjE) (simp_all add: idxL_def)
  from k have "2 * ((2 * h + idxL ! (c mod 4) ! 0) mod 2) + (2 * w + idxL ! (c mod 4) ! 1) mod 2 = c mod 4"
    by (elim disjE) (simp_all add: idxL_def)
  with c show "2 * ((2 * h + idxL ! (c mod 4) ! 0) mod 2) + (2 * w + idxL ! (c mod 4) ! 1) mod 2 + 4 * (c div 4) = c"
    by simp
qed



text \<open>
  Claim C10. On a well-formed tensor whose number of channels is divisible by 4,
  \<open>forward\<close> returns a tensor and \<open>backward\<close> of that tensor returns the input itself.
\<close>

theorem backward_inverts_forward:
  fixes x :: "'a::zero tensor"
  assumes wf: "wf_tensor x" and c4: "dimC x mod 4 = 0"
  shows "\<exists>u. forward x = Inr u \<and> backward u = Inr x"
proof -
  from forward_ok[OF c4]
  obtain u where u: "forward x = Inr u"
    and ud: "dimN u = dimN x" "dimC u = dimC x div 4" "dimH u = 2 * dimH x" "dimW u = 2 * dimW x"
    and ug: "\<And>n c h w. n < dimN x \<Longrightarrow> c < dimC x div 4 \<Longrightarrow> h < 2 * dimH x \<Longrightarrow> w < 2 * dimW x \<Longrightarrow>
         get u n c h w = get x n (2 * (h mod 2) + w mod 2 + 4 * c) (h div 2) (w div 2)"
    by blast
  have "even (dimH u)" "even (dimW u)" using ud by simp_all
  from backward_ok[OF this]
  obtain b where b: "backward u = Inr b" and wfb: "wf_tensor b"
    and bd: "dimN b = dimN u" "dimC b = 4 * dimC u" "dimH b = dimH u div 2" "dimW b = dimW u div 2"
    and bg: "\<And>n c h w. n < dimN u \<Longrightarrow> c < 4 * dimC u \<Longrightarrow> h < dimH u div 2 \<Longrightarrow> w < dimW u div 2 \<Longrightarrow>
         get b n c h w =
           get u n (c div 4) (2 * h + idxL ! (c mod 4) ! 0) (2 * w + idxL ! (c mod 4) ! 1)"
    by blast
  have bd': "dimN b = dimN x" "dimC b = dimC x" "dimH b = dimH x" "dimW b = dimW x"
    using bd ud c4 by auto
  have "b = x"
  proof (rule tensor_eqI[OF wfb wf bd'])
    fix n c h w
    assume r: "n < dimN b" "c < dimC b" "h < dimH b" "w < dimW b"
    have le1: "idxL ! (c mod 4) ! 0 \<le> 1" "idxL ! (c mod 4) ! 1 \<le> 1"
      by (rule idxL_le1, simp)+
    have hw: "2 * h + idxL ! (c mod 4) ! 0 < 2 * dimH x" "2 * w + idxL ! (c mod 4) ! 1 < 2 * dimW x"
      using r bd' le1 by linarith+
    have cd: "c div 4 < dimC x div 4"
      using r(2) bd' c4 by (auto simp: mod_eq_0_iff_dvd elim!: dvdE)
    have "get b n c h w =
        get u n (c div 4) (2 * h + idxL ! (c mod 4) ! 0) (2 * w + idxL ! (c mod 4) ! 1)"
      using r bd' bd ud by (intro bg) simp_all
    also have "\<dots> = get x n c h w"
      using r bd' hw cd by (subst ug) (simp_all only: channel_parts)
    finally show "get b n c h w = get x n c h w" .
  qed
  then show ?thesis using u b by blast
qed

theorem backward_inverts_forward_witness:
  "wf_tensor ex_features \<and> dimC ex_features mod 4 = 0 \<and>
   (\<exists>u. forward ex_features = Inr u \<and> backward u = Inr ex_features)"
proof -
  have h: "wf_tensor ex_features" "dimC ex_features mod 4 = 0"
    by (simp_all add: ex_features_def wf_tensor_def)
  from backward_inverts_forward[OF h] h show ?thesis by simp
qed

subsection \<open>Independence of the images of a batch\<close>

lemma agree_on_get: "agree_on a b m \<Longrightarrow> get a m c h w = get b m c h w"
  by (simp add: agree_on_def get_def)

lemma agree_onI:
  assumes "wf_tensor a" "wf_tensor b" "m < dimN a" "m < dimN b"
    and "dimC a = dimC b" "dimH a = dimH b" "dimW a = dimW b"
    and "\<And>c h w. c < dimC a \<Longrightarrow> h < dimH a \<Longrightarrow> w < dimW a \<Longrightarrow> get a m c h w = get b m c h w"
  shows "agree_on a b m"
  unfolding agree_on_def using assms(3-7) image_eqI4[OF assms] by simp

lemma fold_agree:
  fixes a b :: "'a::zero tensor"
  assumes ag: "agree_on a b m" and ev: "even (dimH a)" "even (dimW a)"
    and len: "length na = dimN a" "length nb = dimN b" and nm: "na ! m = nb ! m"
  shows "\<exists>fa fb. concatenate_input_noise_map a na = Inr fa \<and>
            concatenate_input_noise_map b nb = Inr fb \<and> agree_on fa fb m"
proof -
  from ag have d: "m < dimN a" "m < dimN b" "dimC a = dimC b" "dimH a = dimH b" "dimW a = dimW b"
    by (simp_all add: agree_on_def)
  from fold_ok[OF ev len(1)]
  obtain fa where fa: "concatenate_input_noise_map a na = Inr fa" and wa: "wf_tensor fa"
    and da: "dimN fa = dimN a" "dimC fa = 5 * dimC a" "dimH fa = dimH a div 2" "dimW fa = dimW a div 2"
    and ga: "\<And>n c h w. n < dimN a \<Longrightarrow> c < 5 * dimC a \<Longrightarrow> h < dimH a div 2 \<Longrightarrow> w < dimW a div 2 \<Longrightarrow>
         get fa n c h w =
           (if c < dimC a then na ! n
            else get a n ((c - dimC a) div 4)
                   (2 * h + idxL ! ((c - dimC a) mod 4) ! 0)
                   (2 * w + idxL ! ((c - dimC a) mod 4) ! 1))"
    by blast
  have evb: "even (dimH b)" "even (dimW b)" using ev d by simp_all
  from fold_ok[OF evb len(2)]
  obtain fb where fb: "concatenate_input_noise_map b nb = Inr fb" and wb: "wf_tensor fb"
    and db: "dimN fb = dimN b" "dimC fb = 5 * dimC b" "dimH fb = dimH b div 2" "dimW fb = dimW b div 2"
    and gb: "\<And>n c h w. n < dimN b \<Longrightarrow> c < 5 * dimC b \<Longrightarrow> h < dimH b div 2 \<Longrightarrow> w < dimW b div 2 \<Longrightarrow>
         get fb n c h w =
           (if c < dimC b then nb ! n
            else get b n ((c - dimC b) div 4)
                   (2 * h + idxL ! ((c - dimC b) mod 4) ! 0)
                   (2 * w + idxL ! ((c - dimC b) mod 4) ! 1))"
    by blast
  have "agree_on fa fb m"
  proof (rule agree_onI[OF wa wb])
    fix c h w assume r: "c < dimC fa" "h < dimH fa" "w < dimW fa"
    have "get fa m c h w = (if c < dimC a then na ! m
            else get a m ((c - dimC a) div 4)
                   (2 * h + idxL ! ((c - dimC a) mod 4) ! 0)
                   (2 * w + idxL ! ((c - dimC a) mod 4) ! 1))"
      using r da d by (intro ga) simp_all
    moreover have "get fb m c h w = (if c < dimC b then nb ! m
            else get b m ((c - dimC b) div 4)
                   (2 * h + idxL ! ((c - dimC b) mod 4) ! 0)
                   (2 * w + idxL ! ((c - dimC b) mod 4) ! 1))"
      using r da d by (intro gb) simp_all
    ultimately show "get fa m c h w = get fb m c h w"
      using nm d agree_on_get[OF ag] by simp
  qed (simp_all add: da db d)
  then show ?thesis using fa fb by blast
qed

lemma forward_agree:
  fixes x y :: "'a::zero tensor"
  assumes ag: "agree_on x y m" and c4: "dimC x mod 4 = 0"
  shows "\<exists>ux uy. forward x = Inr ux \<and> forward y = Inr uy \<and> agree_on ux uy m"
proof -
  from ag have d: "m < dimN x" "m < dimN y" "dimC x = dimC y" "dimH x = dimH y" "dimW x = dimW y"
    by (simp_all add: agree_on_def)
  from forward_ok[OF c4]
  obtain ux where ux: "forward x = Inr ux" and wx: "wf_tensor ux"
    and dx: "dimN ux = dimN x" "dimC ux = dimC x div 4" "dimH ux = 2 * dimH x" "dimW ux = 2 * dimW x"
    and gx: "\<And>n c h w. n < dimN x \<Longrightarrow> c < dimC x div 4 \<Longrightarrow> h < 2 * dimH x \<Longrightarrow> w < 2 * dimW x \<Longrightarrow>
         get ux n c h w = get x n (2 * (h mod 2) + w mod 2 + 4 * c) (h div 2) (w div 2)"
    by blast
  have c4y: "dimC y mod 4 = 0" using c4 d by simp
  from forward_ok[OF c4y]
  obtain uy where uy: "forward y = Inr uy" and wy: "wf_tensor uy"
    and dy: "dimN uy = dimN y" "dimC uy = dimC y div 4" "dimH uy = 2 * dimH y" "dimW uy = 2 * dimW y"
    and gy: "\<And>n c h w. n < dimN y \<Longrightarrow> c < dimC y div 4 \<Longrightarrow> h < 2 * dimH y \<Longrightarrow> w < 2 * dimW y \<Longrightarrow>
         get uy n c h w = get y n (2 * (h mod 2) + w mod 2 + 4 * c) (h div 2) (w div 2)"
    by blast
  have "agree_on ux uy m"
  proof (rule agree_onI[OF wx wy])
    fix c h w assume r: "c < dimC ux" "h < dimH ux" "w < dimW ux"
    have "get ux m c h w = get x m (2 * (h mod 2) + w mod 2 + 4 * c) (h div 2) (w div 2)"
      using r dx d by (intro gx) simp_all
    moreover have "get uy m c h w = get y m (2 * (h mod 2) + w mod 2 + 4 * c) (h div 2) (w div 2)"
      using r dx d by (intro gy) simp_all
    ultimately show "get ux m c h w = get uy m c h w"
      using agree_on_get[OF ag] by simp
  qed (simp_all add: dx dy d)
  then show ?thesis using ux uy by blast
qed

lemma backward_agree:
  fixes g g' :: "'a::zero tensor"
  assumes ag: "agree_on g g' m" and ev: "even (dimH g)" "even (dimW g)"
  shows "\<exists>b b'. backward g = Inr b \<and> backward g' = Inr b' \<and> agree_on b b' m"
proof -
  from ag have d: "m < dimN g" "m < dimN g'" "dimC g = dimC g'" "dimH g = dimH g'" "dimW g = dimW g'"
    by (simp_all add: agree_on_def)
  from backward_ok[OF ev]
  obtain b where b: "backward g = Inr b" and wb: "wf_tensor b"
    and db: "dimN b = dimN g" "dimC b = 4 * dimC g" "dimH b = dimH g div 2" "dimW b = dimW g div 2"
    and gb: "\<And>n c h w. n < dimN g \<Longrightarrow> c < 4 * dimC g \<Longrightarrow> h < dimH g div 2 \<Longrightarrow> w < dimW g div 2 \<Longrightarrow>
         get b n c h w =
           get g n (c div 4) (2 * h + idxL ! (c mod 4) ! 0) (2 * w + idxL ! (c mod 4) ! 1)"
    by blast
  have ev': "even (dimH g')" "even (dimW g')" using ev d by simp_all
  from backward_ok[OF ev']
  obtain b' where b': "backward g' = Inr b'" and wb': "wf_tensor b'"
    and db': "dimN b' = dimN g'" "dimC b' = 4 * dimC g'" "dimH b' = dimH g' div 2" "dimW b' = dimW g' div 2"
    and gb': "\<And>n c h w. n < dimN g' \<Longrightarrow> c < 4 * dimC g' \<Longrightarrow> h < dimH g' div 2 \<Longrightarrow> w < dimW g' div 2 \<Longrightarrow>
         get b' n c h w =
           get g' n (c div 4) (2 * h + idxL ! (c mod 4) ! 0) (2 * w + idxL ! (c mod 4) ! 1)"
    by blast
  have "agree_on b b' m"
  proof (rule agree_onI[OF wb wb'])
    fix c h w assume r: "c < dimC b" "h < dimH b" "w < dimW b"
    have "get b m c h w =
           get g m (c div 4) (2 * h + idxL ! (c mod 4) ! 0) (2 * w + idxL ! (c mod 4) ! 1)"
      using r db d by (intro gb) simp_all
    moreover have "get b' m c h w =
           get g' m (c div 4) (2 * h + idxL ! (c mod 4) ! 0) (2 * w + idxL ! (c mod 4) ! 1)"
      using r db d by (intro gb') simp_all
    ultimately show "get b m c h w = get b' m c h w"
      using agree_on_get[OF ag] by simp
  qed (simp_all add: db db' d)
  then show ?thesis using b b' by blast
qed

text \<open>
  Claim C9 (batch independence). Whenever two valid inputs agree on image \<open>m\<close> (for
  \<open>concatenate_input_noise_map\<close>: on the image and on its noise level), the results of
  \<open>concatenate_input_noise_map\<close>, of \<open>forward\<close> and of \<open>backward\<close> agree on image
  \<open>m\<close>, whatever the other images of the two batches are.
\<close>

theorem batch_independence:
  fixes a b x y g g' :: "'a::zero tensor"
  assumes "agree_on a b m" "even (dimH a)" "even (dimW a)"
    and "length na = dimN a" "length nb = dimN b" "na ! m = nb ! m"
    and "agree_on x y m" "dimC x mod 4 = 0"
    and "agree_on g g' m" "even (dimH g)" "even (dimW g)"
  shows "(\<exists>fa fb. concatenate_input_noise_map a na = Inr fa \<and>
            concatenate_input_noise_map b nb = Inr fb \<and> agree_on fa fb m) \<and>
         (\<exists>ux uy. forward x = Inr ux \<and> forward y = Inr uy \<and> agree_on ux uy m) \<and>
         (\<exists>r r'. backward g = Inr r \<and> backward g' = Inr r' \<and> agree_on r r' m)"
  using fold_agree[OF assms(1-6)] forward_agree[OF assms(7,8)] backward_agree[OF assms(9-11)]
  by blast

theorem batch_independence_witness:
  "agree_on ex_image ex_image' 0 \<and> even (dimH ex_image) \<and> even (dimW ex_image) \<and>
   length [5, 6 :: int] = dimN ex_image \<and> length [5, 7 :: int] = dimN ex_image' \<and>
   [5, 6 :: int] ! 0 = [5, 7] ! 0 \<and>
   agree_on ex_features ex_features' 0 \<and> dimC ex_features mod 4 = 0 \<and>
   (\<exists>fa fb. concatenate_input_noise_map ex_image [5, 6] = Inr fa \<and>
      concatenate_input_noise_map ex_image' [5, 7] = Inr fb \<and> agree_on fa fb 0) \<and>
   (\<exists>ux uy. forward ex_features = Inr ux \<and> forward ex_features' = Inr uy \<and> agree_on ux uy 0) \<and>
   (\<exists>r r'. backward ex_image = Inr r \<and> backward ex_image' = Inr r' \<and> agree_on r r' 0)"
proof -
  have h: "agree_on ex_image ex_image' 0" "even (dimH ex_image)" "even (dimW ex_image)"
    "length [5, 6 :: int] = dimN ex_image" "length [5, 7 :: int] = dimN ex_image'"
    "[5, 6 :: int] ! 0 = [5, 7] ! 0"
    "agree_on ex_features ex_features' 0" "dimC ex_features mod 4 = 0"
    by (simp_all add: ex_image_def ex_image'_def ex_features_def ex_features'_def agree_on_def)
  from batch_independence[OF h h(1-3)] h show ?thesis by simp
qed

subsection \<open>The adjoint of forward\<close>

lemma sum_pairs:
  fixes F :: "nat \<Rightarrow> 'a::comm_monoid_add"
  shows "(\<Sum>i<2 * M. F i) = (\<Sum>j<M. F (2 * j) + F (2 * j + 1))"
  by (induction M) (simp_all add: add.assoc)

lemma sum_quads:
  fixes F :: "nat \<Rightarrow> 'a::comm_monoid_add"
  shows "(\<Sum>i<4 * M. F i) =
         (\<Sum>j<M. F (4 * j) + F (4 * j + 1) + F (4 * j + 2) + F (4 * j + 3))"
proof -
  have p: "(F (2 * (2 * j)) + F (2 * (2 * j) + 1)) + (F (2 * (2 * j + 1)) + F (2 * (2 * j + 1) + 1)) =
      F (4 * j) + F (4 * j + 1) + F (4 * j + 2) + F (4 * j + 3)" for j :: nat
  proof -
    have a: "2 * (2 * j) = 4 * j" and b: "2 * (2 * j) + 1 = 4 * j + 1"
      and c: "2 * (2 * j + 1) = 4 * j + 2" and d: "2 * (2 * j + 1) + 1 = 4 * j + 3"
      by simp_all
    show ?thesis
      by (subst d, subst c, subst b, subst a) (rule add.assoc[symmetric])
  qed
  have "(\<Sum>i<4 * M. F i) = (\<Sum>i<2 * (2 * M). F i)"
    by (rule arg_cong[where f = "\<lambda>k. sum F {..<k}"]) simp
  also have "\<dots> = (\<Sum>j<2 * M. F (2 * j) + F (2 * j + 1))"
    by (rule sum_pairs)
  also have "\<dots> = (\<Sum>j<M. (F (2 * (2 * j)) + F (2 * (2 * j) + 1)) +
                          (F (2 * (2 * j + 1)) + F (2 * (2 * j + 1) + 1)))"
    by (rule sum_pairs)
  also have "\<dots> = (\<Sum>j<M. F (4 * j) + F (4 * j + 1) + F (4 * j + 2) + F (4 * j + 3))"
    by (rule sum.cong[OF refl]) (rule p)
  finally show ?thesis .
qed

text \<open>
  Claim C3 (adjoint). For a tensor \<open>x\<close> of size (N, Cin, Hin, Win) with Cin divisible
  by 4 and a gradient \<open>g\<close> of size (N, Cin/4, 2 Hin, 2 Win), \<open>forward x\<close> and
  \<open>backward g\<close> return tensors, \<open>backward g\<close> has the size of \<open>x\<close>, and the inner
  product of \<open>forward x\<close> with \<open>g\<close> equals the inner product of \<open>x\<close> with
  \<open>backward g\<close>. Channel \<open>k + 4c\<close> of \<open>backward g\<close> is channel \<open>c\<close> of \<open>g\<close>
  sub-sampled at the rows and columns of offset \<open>k\<close>. The elements are of any
  semiring, where sums may be regrouped.
\<close>

theorem unfold_backward_adjoint:
  fixes x g :: "'a::semiring_0 tensor"
  assumes c4: "dimC x mod 4 = 0"
    and gd: "dimN g = dimN x" "dimC g = dimC x div 4" "dimH g = 2 * dimH x" "dimW g = 2 * dimW x"
  shows "\<exists>u b. forward x = Inr u \<and> backward g = Inr b \<and> size4 b = size4 x \<and>
      inner4 u g = inner4 x b \<and>
      (\<forall>n c k h w. n < dimN x \<longrightarrow> c < dimC x div 4 \<longrightarrow> k < 4 \<longrightarrow> h < dimH x \<longrightarrow> w < dimW x \<longrightarrow>
         get b n (k + 4 * c) h w = get g n c (2 * h + idxL ! k ! 0) (2 * w + idxL ! k ! 1))"
proof -
  define N C H W where "N = dimN x" and "C = dimC x div 4" and "H = dimH x" and "W = dimW x"
  have cx: "dimC x = 4 * C" using c4 by (auto simp: C_def)
  from forward_ok[OF c4]
  obtain u where u: "forward x = Inr u"
    and ud: "dimN u = N" "dimC u = C" "dimH u = 2 * H" "dimW u = 2 * W"
    and ug: "\<And>n c h w. n < N \<Longrightarrow> c < C \<Longrightarrow> h < 2 * H \<Longrightarrow> w < 2 * W \<Longrightarrow>
         get u n c h w = get x n (2 * (h mod 2) + w mod 2 + 4 * c) (h div 2) (w div 2)"
    unfolding N_def C_def H_def W_def by blast
  have "even (dimH g)" "even (dimW g)" using gd by simp_all
  from backward_ok[OF this]
  obtain b where b: "backward g = Inr b"
    and bd: "dimN b = N" "dimC b = 4 * C" "dimH b = H" "dimW b = W"
    and bg: "\<And>n c h w. n < N \<Longrightarrow> c < 4 * C \<Longrightarrow> h < H \<Longrightarrow> w < W \<Longrightarrow>
         get b n c h w =
           get g n (c div 4) (2 * h + idxL ! (c mod 4) ! 0) (2 * w + idxL ! (c mod 4) ! 1)"
    unfolding gd N_def C_def H_def W_def by (auto simp: nonzero_mult_div_cancel_left)
  define P where "P n c h w r s =
      get x n (2 * r + s + 4 * c) h w * get g n c (2 * h + r) (2 * w + s)" for n c h w r s
  define K where "K = (\<Sum>n<N. \<Sum>c<C. \<Sum>h<H. \<Sum>w<W.
      P n c h w 0 0 + P n c h w 0 1 + P n c h w 1 0 + P n c h w 1 1)"

  txt \<open>The inner product on the side of \<open>forward\<close>.\<close>
  define Q where "Q n c hh ww = P n c (hh div 2) (ww div 2) (hh mod 2) (ww mod 2)" for n c hh ww
  have q: "Q n c (2 * h) (2 * w) = P n c h w 0 0" "Q n c (2 * h) (2 * w + 1) = P n c h w 0 1"
    "Q n c (2 * h + 1) (2 * w) = P n c h w 1 0" "Q n c (2 * h + 1) (2 * w + 1) = P n c h w 1 1"
    for n c h w
    by (simp_all add: Q_def)
  have L: "(\<Sum>hh<2 * H. \<Sum>ww<2 * W. Q n c hh ww) =
      (\<Sum>h<H. \<Sum>w<W. P n c h w 0 0 + P n c h w 0 1 + P n c h w 1 0 + P n c h w 1 1)" for n c
  proof -
    have "(\<Sum>hh<2 * H. \<Sum>ww<2 * W. Q n c hh ww) =
        (\<Sum>hh<2 * H. \<Sum>w<W. Q n c hh (2 * w) + Q n c hh (2 * w + 1))"
      by (simp only: sum_pairs)
    also have "\<dots> = (\<Sum>h<H. (\<Sum>w<W. Q n c (2 * h) (2 * w) + Q n c (2 * h) (2 * w + 1)) +
                          (\<Sum>w<W. Q n c (2 * h + 1) (2 * w) + Q n c (2 * h + 1) (2 * w + 1)))"
      by (rule sum_pairs)
    also have "\<dots> = (\<Sum>h<H. \<Sum>w<W. (P n c h w 0 0 + P n c h w 0 1) +
                          (P n c h w 1 0 + P n c h w 1 1))"
      unfolding q by (simp only: sum.distrib)
    also have "\<dots> = (\<Sum>h<H. \<Sum>w<W. P n c h w 0 0 + P n c h w 0 1 + P n c h w 1 0 + P n c h w 1 1)"
      by (simp only: add.assoc)
    finally show ?thesis .
  qed
  have "inner4 u g = (\<Sum>n<N. \<Sum>c<C. \<Sum>hh<2 * H. \<Sum>ww<2 * W. Q n c hh ww)"
    unfolding inner4_def ud
    by (intro sum.cong refl) (simp add: ug Q_def P_def)
  also have "\<dots> = K"
    unfolding K_def by (simp only: L)
  finally have left: "inner4 u g = K" .

  txt \<open>The inner product on the side of \<open>backward\<close>.\<close>
  define R where "R n cc h w =
      get x n cc h w * get g n (cc div 4) (2 * h + idxL ! (cc mod 4) ! 0) (2 * w + idxL ! (cc mod 4) ! 1)"
    for n cc h w
  have rk: "R n (k + 4 * c) h w =
      get x n (k + 4 * c) h w * get g n c (2 * h + idxL ! k ! 0) (2 * w + idxL ! k ! 1)"
    if "k < 4" for n k c h w
    using that by (simp add: R_def)
  have r: "R n (4 * c) h w = P n c h w 0 0" "R n (4 * c + 1) h w = P n c h w 0 1"
    "R n (4 * c + 2) h w = P n c h w 1 0" "R n (4 * c + 3) h w = P n c h w 1 1"
    for n c h w
  proof -
    show "R n (4 * c) h w = P n c h w 0 0"
      using rk[of 0 n c h w] by (simp add: P_def idxL_def)
    show "R n (4 * c + 1) h w = P n c h w 0 1"
      using rk[of 1 n c h w] by (simp add: P_def idxL_def)
    show "R n (4 * c + 2) h w = P n c h w 1 0"
      using rk[of 2 n c h w] by (simp add: P_def idxL_def)
    have e: "4 * c + 3 = 3 + 4 * c" by simp
    show "R n (4 * c + 3) h w = P n c h w 1 1"
      unfolding e using rk[of 3 n c h w] by (simp add: P_def idxL_def)
  qed
  have M: "(\<Sum>cc<4 * C. \<Sum>h<H. \<Sum>w<W. R n cc h w) =
      (\<Sum>c<C. \<Sum>h<H. \<Sum>w<W. P n c h w 0 0 + P n c h w 0 1 + P n c h w 1 0 + P n c h w 1 1)" for n
  proof -
    have "(\<Sum>cc<4 * C. \<Sum>h<H. \<Sum>w<W. R n cc h w) =
        (\<Sum>c<C. (\<Sum>h<H. \<Sum>w<W. R n (4 * c) h w) + (\<Sum>h<H. \<Sum>w<W. R n (4 * c + 1) h w) +
                 (\<Sum>h<H. \<Sum>w<W. R n (4 * c + 2) h w) + (\<Sum>h<H. \<Sum>w<W. R n (4 * c + 3) h w))"
      by (rule sum_quads)
    also have "\<dots> = (\<Sum>c<C. \<Sum>h<H. \<Sum>w<W.
        P n c h w 0 0 + P n c h w 0 1 + P n c h w 1 0 + P n c h w 1 1)"
      unfolding r by (simp only: sum.distrib)
    finally show ?thesis .
  qed
  have "inner4 x b = (\<Sum>n<N. \<Sum>cc<4 * C. \<Sum>h<H. \<Sum>w<W. R n cc h w)"
    unfolding inner4_def cx N_def[symmetric] H_def[symmetric] W_def[symmetric]
    by (intro sum.cong refl) (simp add: bg R_def)
  also have "\<dots> = K"
    unfolding K_def by (simp only: M)
  finally have right: "inner4 x b = K" .

  have elt: "get b n (k + 4 * c) h w = get g n c (2 * h + idxL ! k ! 0) (2 * w + idxL ! k ! 1)"
    if "n < dimN x" "c < dimC x div 4" "k < 4" "h < dimH x" "w < dimW x" for n c k h w
  proof -
    have "k + 4 * c < 4 * C" using that by (simp add: C_def)
    moreover have "(k + 4 * c) div 4 = c" "(k + 4 * c) mod 4 = k" using that by simp_all
    ultimately show ?thesis
      using that bg[of n "k + 4 * c" h w] by (simp add: N_def H_def W_def)
  qed
  have "size4 b = size4 x"
    by (simp add: size4_def bd cx N_def H_def W_def)
  with u b left right elt show ?thesis by auto
qed

theorem unfold_backward_adjoint_witness:
  "dimC ex_features mod 4 = 0 \<and> dimN ex_grad = dimN ex_features \<and>
   dimC ex_grad = dimC ex_features div 4 \<and>
   dimH ex_grad = 2 * dimH ex_features \<and> dimW ex_grad = 2 * dimW ex_features \<and>
   (\<exists>u b. forward ex_features = Inr u \<and> backward ex_grad = Inr b \<and>
      inner4 u ex_grad = inner4 ex_features b \<and> get b 1 (2 + 4 * 0) 0 0 = 17)"
proof -
  have h: "dimC ex_features mod 4 = 0" "dimN ex_grad = dimN ex_features"
    "dimC ex_grad = dimC ex_features div 4"
    "dimH ex_grad = 2 * dimH ex_features" "dimW ex_grad = 2 * dimW ex_features"
    by (simp_all add: ex_features_def ex_grad_def)
  have v: "get ex_grad 1 0 (2 * 0 + idxL ! 2 ! 0) (2 * 0 + idxL ! 2 ! 1) = 17"
    by (simp add: ex_grad_def get_def idxL_def)
  have r: "(1::nat) < dimN ex_features" "(0::nat) < dimC ex_features div 4" "(2::nat) < 4"
    "(0::nat) < dimH ex_features" "(0::nat) < dimW ex_features"
    by (simp_all add: ex_features_def)
  from unfold_backward_adjoint[OF h]
  obtain u b where "forward ex_features = Inr u" "backward ex_grad = Inr b"
    "inner4 u ex_grad = inner4 ex_features b"
    and e: "\<forall>n c k h w. n < dimN ex_features \<longrightarrow> c < dimC ex_features div 4 \<longrightarrow> k < 4 \<longrightarrow>
         h < dimH ex_features \<longrightarrow> w < dimW ex_features \<longrightarrow>
         get b n (k + 4 * c) h w =
           get ex_grad n c (2 * h + idxL ! k ! 0) (2 * w + idxL ! k ! 1)"
    by blast
  moreover from e r have "get b 1 (2 + 4 * 0) 0 0 =
      get ex_grad 1 0 (2 * 0 + idxL ! 2 ! 0) (2 * 0 + idxL ! 2 ! 1)"
    by blast
  ultimately show ?thesis using h v by auto
qed

end
